theory Spec2Isabelle
  imports Main "HOL-Library.AList" "HOL-Library.Char_ord" "HOL-Library.List_Lexorder"
    "HOL-Library.Multiset"
begin

section \<open>TimeRecorder (time_counter.hpp)\<close>

text \<open>
  The clock readings (\<open>system_clock::now()\<close> in microseconds, an \<open>int64_t\<close>) are
  arguments of the operations that read the clock. A recorder only stores and compares
  them, so they are modelled as \<open>int\<close>. The callback \<open>_cb\<close> is modelled by its
  calls: every operation returns the list of argument triples \<open>(name, start_us, end_us)\<close>
  it passed to the callback. The fields \<open>_start_at\<close> and \<open>_end_at\<close> are
  indeterminate after construction; every read of them is guarded by \<open>_is_start\<close> or
  \<open>_is_end\<close>, and the model initialises them with 0.
\<close>

type_synonym emission = "string \<times> int \<times> int"

record TimeRecorder =
  name_of :: string
  create_at :: int
  start_at :: int
  end_at :: int
  is_start :: bool
  is_end :: bool
  uploaded :: bool

definition TimeRecorder_new :: "string \<Rightarrow> int \<Rightarrow> TimeRecorder" where
  "TimeRecorder_new name now =
     \<lparr>name_of = name, create_at = now, start_at = 0, end_at = 0,
      is_start = False, is_end = False, uploaded = False\<rparr>"

definition upload :: "int \<Rightarrow> TimeRecorder \<Rightarrow> TimeRecorder \<times> emission list" where
  "upload now r =
     (if uploaded r then (r, [])
      else
        let start = (if is_start r then start_at r else create_at r);
            end = (if is_end r then end_at r else now)
        in (r\<lparr>uploaded := True\<rparr>, [(name_of r, start, end)]))"

definition start :: "int \<Rightarrow> TimeRecorder \<Rightarrow> TimeRecorder" where
  "start now r =
     (if is_end r \<or> is_start r then r
      else r\<lparr>start_at := now, is_start := True\<rparr>)"

definition end_recorder :: "int \<Rightarrow> TimeRecorder \<Rightarrow> TimeRecorder \<times> emission list" where
  "end_recorder now r =
     (if is_end r then (r, [])
      else upload now (r\<lparr>end_at := now, is_end := True\<rparr>))"

text \<open>The destructor \<open>~TimeRecorder\<close> calls \<open>upload\<close>.\<close>

definition destroy :: "int \<Rightarrow> TimeRecorder \<Rightarrow> TimeRecorder \<times> emission list" where
  "destroy now r = upload now r"

text \<open>
  The operations a client can apply to a live recorder, each with the clock reading it
  sees. A forced finalization by \<open>TimeCounter::report\<close> is a call of \<open>end()\<close>.
\<close>

datatype timer_op = Start int | End int | ForcedEnd int

fun apply_timer_op :: "timer_op \<Rightarrow> TimeRecorder \<Rightarrow> TimeRecorder \<times> emission list" where
  "apply_timer_op (Start t) r = (start t r, [])"
| "apply_timer_op (End t) r = end_recorder t r"
| "apply_timer_op (ForcedEnd t) r = end_recorder t r"

fun run_ops :: "timer_op list \<Rightarrow> TimeRecorder \<Rightarrow> TimeRecorder \<times> emission list" where
  "run_ops [] r = (r, [])"
| "run_ops (x # xs) r =
     (let (r1, es1) = apply_timer_op x r; (r2, es2) = run_ops xs r1 in (r2, es1 @ es2))"

text \<open>
  The whole lifetime of a recorder: construction, a sequence of operations, destruction.
  The result is the list of all calls of the callback.
\<close>

definition lifetime :: "string \<Rightarrow> int \<Rightarrow> timer_op list \<Rightarrow> int \<Rightarrow> emission list" where
  "lifetime name t0 ops t_end =
     (let (r1, es1) = run_ops ops (TimeRecorder_new name t0);
          (r2, es2) = destroy t_end r1
      in es1 @ es2)"

text \<open>
  The start and end instants of the single emission, read off the operation sequence:
  the first operation decides the start (a \<open>start()\<close> that comes first is recorded,
  an \<open>end()\<close> that comes first emits with the creation instant), and the first
  \<open>end()\<close> decides the end (the destructor's clock reading when there is none).
\<close>

fun effective_start :: "int \<Rightarrow> timer_op list \<Rightarrow> int" where
  "effective_start t0 [] = t0"
| "effective_start t0 (Start t # xs) = t"
| "effective_start t0 (End t # xs) = t0"
| "effective_start t0 (ForcedEnd t # xs) = t0"

fun effective_end :: "int \<Rightarrow> timer_op list \<Rightarrow> int" where
  "effective_end t_end [] = t_end"
| "effective_end t_end (Start t # xs) = effective_end t_end xs"
| "effective_end t_end (End t # xs) = t"
| "effective_end t_end (ForcedEnd t # xs) = t"

text \<open>
  The start instant as the specification words it: the time of \<open>start()\<close> if
  \<open>start()\<close> was called at all during the lifetime, the creation instant otherwise.
\<close>

fun spec_effective_start :: "int \<Rightarrow> timer_op list \<Rightarrow> int" where
  "spec_effective_start t0 [] = t0"
| "spec_effective_start t0 (Start t # xs) = t"
| "spec_effective_start t0 (End t # xs) = spec_effective_start t0 xs"
| "spec_effective_start t0 (ForcedEnd t # xs) = spec_effective_start t0 xs"

section \<open>TimeCounter (time_counter.hpp)\<close>

text \<open>
  \<open>std::map<std::string, V>\<close> is modelled as an association list kept in ascending
  key order; \<open>std::string\<close> compares bytewise and lexicographically, which is the order
  of \<open>char list\<close> here. \<open>ordered_assign\<close> is \<open>m[k] = v\<close>, \<open>map_of m k\<close> is
  \<open>m.find(k)\<close>, and iteration is the list from left to right.
\<close>

fun ordered_assign :: "string \<Rightarrow> 'v \<Rightarrow> (string \<times> 'v) list \<Rightarrow> (string \<times> 'v) list" where
  "ordered_assign k v [] = [(k, v)]"
| "ordered_assign k v (p # ps) =
     (if k < fst p then (k, v) # p # ps
      else if k = fst p then (k, v) # ps
      else p # ordered_assign k v ps)"

type_synonym spans_map = "(string \<times> int \<times> int) list"

text \<open>\<open>_spans[name]\<close> read as a value; a missing key reads as the value-initialised pair.\<close>

definition spans_at :: "spans_map \<Rightarrow> string \<Rightarrow> int \<times> int" where
  "spans_at m name = (case map_of m name of None \<Rightarrow> (0, 0) | Some p \<Rightarrow> p)"

text \<open>The callback that \<open>add_recorder\<close> gives to each recorder (lines 94 to 102).\<close>

definition merge_span :: "emission \<Rightarrow> spans_map \<Rightarrow> spans_map" where
  "merge_span e m =
     (case e of (name, start_us, end_us) \<Rightarrow>
        let m1 = (if map_of m name = None then ordered_assign name (start_us, end_us) m else m);
            m2 = ordered_assign name (min (fst (spans_at m1 name)) start_us, snd (spans_at m1 name)) m1;
            m3 = ordered_assign name (fst (spans_at m2 name), max (snd (spans_at m2 name)) end_us) m2
        in m3)"

definition deliver :: "emission list \<Rightarrow> spans_map \<Rightarrow> spans_map" where
  "deliver es m = foldl (\<lambda>acc e. merge_span e acc) m es"

text \<open>The starts and the ends among the emissions for one name, in order of delivery.\<close>

definition starts_of :: "string \<Rightarrow> emission list \<Rightarrow> int list" where
  "starts_of n es = map (\<lambda>e. fst (snd e)) (filter (\<lambda>e. fst e = n) es)"

definition ends_of :: "string \<Rightarrow> emission list \<Rightarrow> int list" where
  "ends_of n es = map (\<lambda>e. snd (snd e)) (filter (\<lambda>e. fst e = n) es)"

text \<open>
  The aggregator owns the span map and the list \<open>_trs\<close> of weak references. The live
  recorders are kept in a store from addresses to recorders; \<open>weak_ptr::lock\<close> on an
  address without a recorder gives the null pointer.
\<close>

record TimeCounter =
  spans :: spans_map
  trs :: "nat list"

type_synonym recorders = "nat \<rightharpoonup> TimeRecorder"

definition TimeCounter_new :: TimeCounter where
  "TimeCounter_new = \<lparr>spans = [], trs = []\<rparr>"

text \<open>\<open>a\<close> is the address the allocator gives to the new recorder.\<close>

definition add_recorder ::
  "string \<Rightarrow> int \<Rightarrow> nat \<Rightarrow> TimeCounter \<times> recorders \<Rightarrow> nat \<times> TimeCounter \<times> recorders" where
  "add_recorder name now a st =
     (case st of (c, h) \<Rightarrow> (a, c\<lparr>trs := trs c @ [a]\<rparr>, h(a \<mapsto> TimeRecorder_new name now)))"

text \<open>
  The first loop of \<open>report\<close>: every tracked recorder that is still alive is ended;
  \<open>clk i\<close> is the clock reading seen by the recorder at position \<open>i\<close> of \<open>_trs\<close>.
\<close>

fun end_tracked ::
  "(nat \<Rightarrow> int) \<Rightarrow> nat \<Rightarrow> nat list \<Rightarrow> spans_map \<times> recorders \<Rightarrow> spans_map \<times> recorders" where
  "end_tracked clk i [] st = st"
| "end_tracked clk i (a # as) st =
     (case st of (m, h) \<Rightarrow>
        (case h a of
           None \<Rightarrow> end_tracked clk (Suc i) as (m, h)
         | Some r \<Rightarrow>
             (case end_recorder (clk i) r of (r', es) \<Rightarrow>
                end_tracked clk (Suc i) as (deliver es m, h(a \<mapsto> r')))))"

text \<open>
  \<open>snprintf(buffer, 100, "[%s: %.3f(ms)]", name.c_str(), (end - start) / 1000.0)\<close>.
  \<open>%s\<close> prints the name up to its first NUL byte; the output is cut after 99 bytes.
  \<open>format_ms d\<close> is the text of \<open>%.3f\<close> for the double \<open>d / 1000.0\<close>: for
  \<open>\<bar>d\<bar> < 2^52\<close> the double is so close to the exact quotient that rounding to three
  decimals gives the exact decimal expansion, which is what the model prints. The
  subtraction is on \<open>int\<close>: timestamps are microseconds since the epoch, far from the
  range where \<open>int64_t\<close> overflows.
\<close>

definition digit_char :: "nat \<Rightarrow> char" where
  "digit_char n = char_of (48 + n)"

fun show_nat :: "nat \<Rightarrow> string" where
  "show_nat n = (if n < 10 then [digit_char n] else show_nat (n div 10) @ [digit_char (n mod 10)])"

definition format_ms :: "int \<Rightarrow> string" where
  "format_ms d =
     (let a = nat \<bar>d\<bar> in
      (if d < 0 then ''-'' else []) @ show_nat (a div 1000) @ ''.'' @
      [digit_char (a div 100 mod 10), digit_char (a div 10 mod 10), digit_char (a mod 10)])"

definition c_str :: "string \<Rightarrow> string" where
  "c_str s = takeWhile (\<lambda>c. c \<noteq> CHR 0x00) s"

definition format_span :: "string \<times> int \<times> int \<Rightarrow> string" where
  "format_span item =
     take 99 (''['' @ c_str (fst item) @ '': '' @
              format_ms (snd (snd item) - fst (snd item)) @ ''(ms)]'')"

definition join_view :: "string list \<Rightarrow> string" where
  "join_view view =
     (case view of [] \<Rightarrow> [] | v # vs \<Rightarrow> foldl (\<lambda>result x. result @ '' '' @ x) v vs)"

definition TimeCounter_report ::
  "(nat \<Rightarrow> int) \<Rightarrow> TimeCounter \<times> recorders \<Rightarrow> string \<times> TimeCounter \<times> recorders" where
  "TimeCounter_report clk st =
     (case st of (c, h) \<Rightarrow>
        (case end_tracked clk 0 (trs c) (spans c, h) of (m, h') \<Rightarrow>
           (join_view (map format_span m), c\<lparr>spans := m\<rparr>, h')))"

text \<open>
  The rendering as the specification words it: one entry \<open>[name: elapsed(ms)]\<close> per
  stored span, whole, joined by single spaces.
\<close>

definition spec_span_entry :: "string \<times> int \<times> int \<Rightarrow> string" where
  "spec_span_entry item =
     ''['' @ fst item @ '': '' @ format_ms (snd (snd item) - fst (snd item)) @ ''(ms)]''"

fun spec_join :: "string list \<Rightarrow> string" where
  "spec_join [] = []"
| "spec_join [x] = x"
| "spec_join (x # y # ys) = x @ '' '' @ spec_join (y # ys)"

section \<open>ThreadData (timekeeper.hpp)\<close>

record ThreadData =
  logid :: string
  tc :: TimeCounter
  log_fields :: "(string \<times> string) list"

definition ThreadData_new :: "string \<Rightarrow> ThreadData" where
  "ThreadData_new l = \<lparr>logid = l, tc = TimeCounter_new, log_fields = []\<rparr>"

definition ThreadData_report ::
  "(nat \<Rightarrow> int) \<Rightarrow> ThreadData \<times> recorders \<Rightarrow> string \<times> ThreadData \<times> recorders" where
  "ThreadData_report clk st =
     (case st of (d, h) \<Rightarrow>
        (case TimeCounter_report clk (tc d, h) of (r, c', h') \<Rightarrow>
           (''[logid: '' @ logid d @ '']'' @
            concat (map (\<lambda>item. '' ['' @ fst item @ '': '' @ snd item @ '']'') (log_fields d)) @
            '' '' @ r,
            d\<lparr>tc := c'\<rparr>, h')))"

definition add_log_field :: "string \<Rightarrow> string \<Rightarrow> bool \<Rightarrow> ThreadData \<Rightarrow> ThreadData" where
  "add_log_field key val need_overwrite d =
     (if map_of (log_fields d) key \<noteq> None \<and> \<not> need_overwrite then d
      else d\<lparr>log_fields := ordered_assign key val (log_fields d)\<rparr>)"

text \<open>
  The report as the specification words it: the identifier, one entry per field, then the
  span report, joined by single spaces with no trailing separator.
\<close>

definition spec_report :: "string \<Rightarrow> (string \<times> string) list \<Rightarrow> string \<Rightarrow> string" where
  "spec_report ident fs span_report =
     spec_join ([''[identifier: '' @ ident @ '']''] @
                map (\<lambda>item. ''['' @ fst item @ '': '' @ snd item @ '']'') fs @
                (if span_report = [] then [] else [span_report]))"

text \<open>
  A \<open>ThreadData\<close> used as an example: two fields, written in descending key order, and
  one stored span.
\<close>

definition example_data :: ThreadData where
  "example_data =
     (add_log_field ''a'' ''1'' False (add_log_field ''b'' ''2'' False (ThreadData_new ''x'')))
       \<lparr>tc := \<lparr>spans = [(''s'', (0, 1500))], trs = []\<rparr>\<rparr>"

section \<open>HierarchicalMap (timekeeper.hpp)\<close>

text \<open>
  A \<open>DataPtr\<close> is a \<open>shared_ptr<DataType>\<close>: \<open>None\<close> is the null pointer,
  \<open>Some a\<close> points to the object at address \<open>a\<close>. Both \<open>std::unordered_map\<close>s are
  association lists read with \<open>map_of\<close>; their iteration order is unspecified in C++ and
  no statement below depends on the order the lists have. A child set
  (\<open>std::unordered_set<std::string>\<close>) is a list without duplicates.
\<close>

text \<open>The members \<open>map_\<close> and \<open>children_\<close> are the fields \<open>entries\<close> and \<open>children\<close>.\<close>

record 'p HierarchicalMap =
  entries :: "(string \<times> 'p option) list"
  children :: "(string \<times> string list) list"

definition HierarchicalMap_new :: "'p HierarchicalMap" where
  "HierarchicalMap_new = \<lparr>entries = [], children = []\<rparr>"

text \<open>\<open>children_[baseKey].insert(key)\<close>: \<open>operator[]\<close> creates a missing set.\<close>

definition children_insert ::
  "string \<Rightarrow> string \<Rightarrow> (string \<times> string list) list \<Rightarrow> (string \<times> string list) list" where
  "children_insert baseKey key cs =
     AList.update baseKey
       (List.insert key (case map_of cs baseKey of None \<Rightarrow> [] | Some ks \<Rightarrow> ks)) cs"

text \<open>\<open>children_.emplace(key, {})\<close> does nothing when the key is there.\<close>

definition children_emplace ::
  "string \<Rightarrow> (string \<times> string list) list \<Rightarrow> (string \<times> string list) list" where
  "children_emplace key cs = (if map_of cs key = None then AList.update key [] cs else cs)"

text \<open>
  \<open>AddData\<close> returns the new store and the lines written to \<open>std::cerr\<close>.
  \<open>data = map_[baseKey]\<close> reads an entry that is there.
\<close>

definition AddData ::
  "string \<Rightarrow> 'p option \<Rightarrow> string \<Rightarrow> 'p HierarchicalMap \<Rightarrow> 'p HierarchicalMap \<times> string list" where
  "AddData key data baseKey s =
     (let (cs, data', err) =
        (if baseKey \<noteq> [] then
           (case map_of (entries s) baseKey of
              None \<Rightarrow>
                (children s, data,
                 [''there is no basekey in map, basekey: '' @ baseKey @ '' key: '' @ key])
            | Some base_data \<Rightarrow> (children_insert baseKey key (children s), base_data, []))
         else (children s, data, []))
      in (\<lparr>entries = AList.update key data' (entries s), children = children_emplace key cs\<rparr>, err))"

definition FindData :: "string \<Rightarrow> 'p HierarchicalMap \<Rightarrow> 'p option" where
  "FindData key s = (case map_of (entries s) key of None \<Rightarrow> None | Some data \<Rightarrow> data)"

text \<open>
  The loop of \<open>RemoveKeyRecursive\<close>. Besides the store it carries the queue
  \<open>keys_to_remove\<close>, the vector \<open>removed_keys\<close>, and a record of the erasures that took
  something out: \<open>ChildSet k\<close> for \<open>children_.erase(childIt)\<close> and \<open>Entry k\<close> for a
  \<open>map_.erase(current)\<close> that found the key (\<open>erase\<close> returns 1).
\<close>

datatype erasure = ChildSet string | Entry string

definition map_erase ::
  "string \<Rightarrow> 'p HierarchicalMap \<Rightarrow> 'p HierarchicalMap \<times> erasure list" where
  "map_erase current s =
     (s\<lparr>entries := AList.delete current (entries s)\<rparr>,
      if map_of (entries s) current = None then [] else [Entry current])"

function remove_loop ::
  "string list \<Rightarrow> 'p HierarchicalMap \<Rightarrow> string list \<Rightarrow> erasure list \<Rightarrow>
   'p HierarchicalMap \<times> string list \<times> erasure list" where
  "remove_loop [] s removed_keys erased = (s, removed_keys, erased)"
| "remove_loop (current # keys_to_remove) s removed_keys erased =
     (case map_of (children s) current of
        Some cs \<Rightarrow>
          (case map_erase current (s\<lparr>children := AList.delete current (children s)\<rparr>) of
             (s', e) \<Rightarrow>
               remove_loop (keys_to_remove @ cs) s' (removed_keys @ cs)
                 (erased @ [ChildSet current] @ e))
      | None \<Rightarrow>
          (case map_erase current s of
             (s', e) \<Rightarrow> remove_loop keys_to_remove s' removed_keys (erased @ e)))"
  by pat_completeness auto

termination
  by (relation "measures [\<lambda>(q, s, rk, er). length (children s), \<lambda>(q, s, rk, er). length q]")
     (auto simp: map_erase_def AList.delete_eq dest!: map_of_SomeD intro!: length_filter_less)

text \<open>
  \<open>RemoveKeyRecursive\<close> returns the store, the line written to \<open>std::cout\<close> and the
  erasures. The line is built from \<open>removed_keys\<close>, which starts with \<open>key\<close> and is
  never empty.
\<close>

definition removal_notice :: "string list \<Rightarrow> string" where
  "removal_notice removed_keys =
     (case removed_keys of
        [] \<Rightarrow> ''[begin recursive remove key] parent key is ''
      | k0 # ks \<Rightarrow>
          ''[begin recursive remove key] parent key is '' @ k0 @ concat (map (\<lambda>k. '' '' @ k) ks))"

definition RemoveKeyRecursive ::
  "string \<Rightarrow> 'p HierarchicalMap \<Rightarrow> 'p HierarchicalMap \<times> string \<times> erasure list" where
  "RemoveKeyRecursive key s =
     (case remove_loop [key] s [key] [] of
        (s', removed_keys, erased) \<Rightarrow> (s', removal_notice removed_keys, erased))"

text \<open>
  A \<open>KeyGuard\<close> is the \<open>shared_ptr\<close> that \<open>GetKeyGuard\<close> builds: the pointer it holds,
  the key its deleter captured, and the use count of its control block. Copying a guard
  increments the count, dropping one decrements it, and the drop that brings the count to
  zero runs the deleter, which calls \<open>RemoveKeyRecursive\<close>.
\<close>

record 'p KeyGuard =
  guard_ptr :: "'p option"
  guard_key :: string
  use_count :: nat

definition GetKeyGuard :: "string \<Rightarrow> 'p HierarchicalMap \<Rightarrow> 'p KeyGuard option" where
  "GetKeyGuard key s =
     (case map_of (entries s) key of
        None \<Rightarrow> None
      | Some data \<Rightarrow> Some \<lparr>guard_ptr = data, guard_key = key, use_count = 1\<rparr>)"

definition copy_guard :: "'p KeyGuard \<Rightarrow> 'p KeyGuard" where
  "copy_guard g = g\<lparr>use_count := Suc (use_count g)\<rparr>"

definition drop_guard ::
  "'p KeyGuard \<Rightarrow> 'p HierarchicalMap \<Rightarrow>
   'p KeyGuard option \<times> 'p HierarchicalMap \<times> string list \<times> erasure list" where
  "drop_guard g s =
     (if use_count g \<le> 1 then
        (case RemoveKeyRecursive (guard_key g) s of (s', line, erased) \<Rightarrow> (None, s', [line], erased))
      else (Some (g\<lparr>use_count := use_count g - 1\<rparr>), s, [], []))"

text \<open>
  The children relation of a store and the keys reachable from a key through it (the key
  itself included).
\<close>

definition child_rel :: "'p HierarchicalMap \<Rightarrow> (string \<times> string) set" where
  "child_rel s = {(p, c). \<exists>cs. map_of (children s) p = Some cs \<and> c \<in> set cs}"

definition descendants :: "'p HierarchicalMap \<Rightarrow> string \<Rightarrow> string set" where
  "descendants s k = (child_rel s)\<^sup>* `` {k}"

text \<open>The children relation read off a table of child sets.\<close>

definition edges :: "(string \<times> string list) list \<Rightarrow> (string \<times> string) set" where
  "edges al = {(p, c). \<exists>cs. map_of al p = Some cs \<and> c \<in> set cs}"

text \<open>
  What a removal of the key set \<open>R\<close> leaves behind, from store \<open>s\<close> to store
  \<open>s'\<close> with the erasures \<open>new\<close>: both tables lose exactly the keys in \<open>R\<close>, and
  every table entry with a key in \<open>R\<close> is erased exactly once.
\<close>

definition removal_post ::
  "string set \<Rightarrow> 'p HierarchicalMap \<Rightarrow> 'p HierarchicalMap \<Rightarrow> erasure list \<Rightarrow> bool" where
  "removal_post R s s' new \<longleftrightarrow>
     entries s' = filter (\<lambda>p. fst p \<notin> R) (entries s) \<and>
     children s' = filter (\<lambda>p. fst p \<notin> R) (children s) \<and>
     distinct new \<and>
     set new = ChildSet ` (R \<inter> fst ` set (children s)) \<union> Entry ` (R \<inter> fst ` set (entries s))"

text \<open>
  Client code that works on the payload behind a key: \<open>FindData(key)->f()\<close>. The objects
  live in a store from addresses to values; a null pointer has no object to work on.
\<close>

definition read_through ::
  "string \<Rightarrow> 'p HierarchicalMap \<Rightarrow> ('p \<Rightarrow> 'd) \<Rightarrow> 'd option" where
  "read_through key s objs = map_option objs (FindData key s)"

definition mutate_through ::
  "string \<Rightarrow> ('d \<Rightarrow> 'd) \<Rightarrow> 'p HierarchicalMap \<Rightarrow> ('p \<Rightarrow> 'd) \<Rightarrow> ('p \<Rightarrow> 'd) option" where
  "mutate_through key f s objs =
     (case FindData key s of None \<Rightarrow> None | Some a \<Rightarrow> Some (objs(a := f (objs a))))"

text \<open>
  Two stores used as examples: \<open>parent\<close> registered with the payload at address 1,
  and then \<open>child\<close> derived from it (the data passed along, at address 2, is dropped).
\<close>

definition parent_store :: "nat HierarchicalMap" where
  "parent_store = fst (AddData ''parent'' (Some 1) [] HierarchicalMap_new)"

definition parent_child_store :: "nat HierarchicalMap" where
  "parent_child_store = fst (AddData ''child'' (Some 2) ''parent'' parent_store)"

section \<open>ThreadDataManager (timekeeper.hpp)\<close>

text \<open>
  The manager as one thread sees it: \<open>logid_ptr\<close> is that thread's \<open>_logid_ptr\<close>
  (\<open>None\<close> is the null pointer), \<open>data_map\<close> is \<open>data_map_\<close> with addresses for
  pointers, \<open>objects\<close> holds the \<open>ThreadData\<close> objects, and \<open>dummy_counter\<close> is the
  64-bit counter. The notices written to \<open>std::cout\<close> are left out; the lines written to
  \<open>std::cerr\<close> are returned.
\<close>

record ThreadDataManager =
  logid_ptr :: "string option"
  data_map :: "nat HierarchicalMap"
  dummy_counter :: nat
  objects :: "nat \<rightharpoonup> ThreadData"

definition ThreadDataManager_new :: ThreadDataManager where
  "ThreadDataManager_new =
     \<lparr>logid_ptr = None, data_map = HierarchicalMap_new, dummy_counter = 0, objects = Map.empty\<rparr>"

definition clear_if_exist :: "ThreadDataManager \<Rightarrow> ThreadDataManager" where
  "clear_if_exist m = (case logid_ptr m of None \<Rightarrow> m | Some l \<Rightarrow> m\<lparr>logid_ptr := None\<rparr>)"

definition GenerateDummyKey :: "string \<Rightarrow> ThreadDataManager \<Rightarrow> string \<times> ThreadDataManager" where
  "GenerateDummyKey l m =
     (''dummy_'' @ l @ ''_'' @ show_nat (dummy_counter m),
      m\<lparr>dummy_counter := (dummy_counter m + 1) mod 2 ^ 64\<rparr>)"

text \<open>
  What a call hands back: a pointer into the store, a \<open>ThreadData\<close> made on the spot
  by \<open>make_shared\<close> (known to no key), a guard of the store, or nothing at all because the
  call dereferenced the null pointer.
\<close>

datatype handed =
    Stored nat
  | Fresh ThreadData
  | Guard "nat KeyGuard option"
  | Null_Dereference

definition GetCurrentThreadData :: "ThreadDataManager \<Rightarrow> handed \<times> string list" where
  "GetCurrentThreadData m =
     (case logid_ptr m of
        None \<Rightarrow> (Fresh (ThreadData_new []), [''ThreadData not initialized''])
      | Some l \<Rightarrow>
          (case FindData l (data_map m) of
             None \<Rightarrow>
               (Fresh (ThreadData_new []),
                [''ThreadData initialized, but cannot find in map., logid: '' @ l])
           | Some a \<Rightarrow> (Stored a, [])))"

text \<open>\<open>a\<close> is the address the allocator gives to \<open>new ThreadData(logid)\<close>.\<close>

definition Init ::
  "string \<Rightarrow> nat \<Rightarrow> ThreadDataManager \<Rightarrow> (handed \<times> string list) \<times> ThreadDataManager" where
  "Init l a m =
     (let m1 = (clear_if_exist m)\<lparr>logid_ptr := Some l\<rparr>;
          m2 =
            (case FindData l (data_map m1) of
               None \<Rightarrow>
                 m1\<lparr>objects := (objects m1)(a \<mapsto> ThreadData_new l),
                    data_map := fst (AddData l (Some a) [] (data_map m1))\<rparr>
             | Some p \<Rightarrow>
                 (case GenerateDummyKey l m1 of
                    (dummy_key, m') \<Rightarrow>
                      ((clear_if_exist m')\<lparr>logid_ptr := Some dummy_key\<rparr>)
                        \<lparr>data_map := fst (AddData dummy_key (Some p) l (data_map m'))\<rparr>))
      in (GetCurrentThreadData m2, m2))"

text \<open>
  \<open>ThreadDataManager::GetKeyGuard\<close>, lines 240 to 247: the test is \<open>if (_logid_ptr)\<close>,
  so a set pointer takes the branch that reports and returns \<open>make_shared<ThreadData>()\<close>,
  and a null pointer goes on to \<open>*_logid_ptr\<close>.
\<close>

definition ThreadDataManager_GetKeyGuard :: "ThreadDataManager \<Rightarrow> handed \<times> string list" where
  "ThreadDataManager_GetKeyGuard m =
     (case logid_ptr m of
        Some l \<Rightarrow> (Fresh (ThreadData_new []), [''ThreadData not initialized''])
      | None \<Rightarrow> (Null_Dereference, []))"

text \<open>
  The same call as the specification words it: a guard of the store for the active
  identifier when one is set, a fresh object after a report when none is.
\<close>

definition spec_release_handle :: "ThreadDataManager \<Rightarrow> handed \<times> string list" where
  "spec_release_handle m =
     (case logid_ptr m of
        Some l \<Rightarrow> (Guard (GetKeyGuard l (data_map m)), [])
      | None \<Rightarrow> (Fresh (ThreadData_new []), [''ThreadData not initialized'']))"

section \<open>The recorder emits once\<close>

lemma run_ops_uploaded:
  "uploaded r \<Longrightarrow> is_end r \<Longrightarrow> snd (run_ops ops r) = [] \<and> uploaded (fst (run_ops ops r)) \<and> is_end (fst (run_ops ops r))"
proof (induction ops arbitrary: r)
  case Nil then show ?case by simp
next
  case (Cons x xs)
  obtain r1 where r1: "apply_timer_op x r = (r1, [])" "uploaded r1" "is_end r1"
    using Cons.prems by (cases x) (auto simp: start_def end_recorder_def)
  from Cons.IH[OF r1(2,3)] r1(1) show ?case by (simp add: split_beta)
qed

lemma run_ops_started:
  "\<not> uploaded r \<Longrightarrow> \<not> is_end r \<Longrightarrow> is_start r \<Longrightarrow>
   snd (run_ops ops r) @ snd (destroy t_end (fst (run_ops ops r))) = [(name_of r, start_at r, effective_end t_end ops)]
   \<and> length (snd (run_ops ops r)) \<le> 1"
proof (induction ops arbitrary: r)
  case Nil then show ?case by (simp add: destroy_def upload_def)
next
  case (Cons x xs)
  show ?case
  proof (cases x)
    case (Start t)
    then have "apply_timer_op x r = (r, [])" using Cons.prems by (simp add: start_def)
    with Cons.IH[OF Cons.prems] Start show ?thesis by (simp add: split_beta)
  next
    case (End t)
    let ?r1 = "r\<lparr>end_at := t, is_end := True, uploaded := True\<rparr>"
    have a: "apply_timer_op x r = (?r1, [(name_of r, start_at r, t)])"
      using Cons.prems End by (simp add: end_recorder_def upload_def)
    have "uploaded ?r1" "is_end ?r1" by simp_all
    from run_ops_uploaded[OF this, of xs] a End show ?thesis
      by (simp add: split_beta destroy_def upload_def)
  next
    case (ForcedEnd t)
    let ?r1 = "r\<lparr>end_at := t, is_end := True, uploaded := True\<rparr>"
    have a: "apply_timer_op x r = (?r1, [(name_of r, start_at r, t)])"
      using Cons.prems ForcedEnd by (simp add: end_recorder_def upload_def)
    have "uploaded ?r1" "is_end ?r1" by simp_all
    from run_ops_uploaded[OF this, of xs] a ForcedEnd show ?thesis
      by (simp add: split_beta destroy_def upload_def)
  qed
qed

lemma run_ops_fresh:
  assumes p: "\<not> uploaded r" "\<not> is_end r" "\<not> is_start r"
  shows "snd (run_ops ops r) @ snd (destroy t_end (fst (run_ops ops r)))
     = [(name_of r, effective_start (create_at r) ops, effective_end t_end ops)]
   \<and> length (snd (run_ops ops r)) \<le> 1"
proof (cases ops)
  case Nil with p show ?thesis by (simp add: destroy_def upload_def)
next
  case (Cons x xs)
  show ?thesis
  proof (cases x)
    case (Start t)
    let ?r1 = "r\<lparr>start_at := t, is_start := True\<rparr>"
    have a: "apply_timer_op x r = (?r1, [])" using p Start by (simp add: start_def)
    have "\<not> uploaded ?r1" "\<not> is_end ?r1" "is_start ?r1" using p by simp_all
    from run_ops_started[OF this, of xs t_end] a Start Cons show ?thesis by (simp add: split_beta)
  next
    case (End t)
    let ?r1 = "r\<lparr>end_at := t, is_end := True, uploaded := True\<rparr>"
    have a: "apply_timer_op x r = (?r1, [(name_of r, create_at r, t)])"
      using p End by (simp add: end_recorder_def upload_def)
    have "uploaded ?r1" "is_end ?r1" by simp_all
    from run_ops_uploaded[OF this, of xs] a End Cons show ?thesis
      by (simp add: split_beta destroy_def upload_def)
  next
    case (ForcedEnd t)
    let ?r1 = "r\<lparr>end_at := t, is_end := True, uploaded := True\<rparr>"
    have a: "apply_timer_op x r = (?r1, [(name_of r, create_at r, t)])"
      using p ForcedEnd by (simp add: end_recorder_def upload_def)
    have "uploaded ?r1" "is_end ?r1" by simp_all
    from run_ops_uploaded[OF this, of xs] a ForcedEnd Cons show ?thesis
      by (simp add: split_beta destroy_def upload_def)
  qed
qed

text \<open>
  Claim C3, as the code has it: over the whole lifetime of a recorder (construction, any
  sequence of \<open>start()\<close>, \<open>end()\<close> and forced finalizations, destruction) the callback
  is called exactly once, and after every prefix of the sequence it has been called at most
  once. The emitted start is the instant of the first \<open>start()\<close> when that call comes
  before every \<open>end()\<close> and finalization, and the creation instant otherwise; the emitted
  end is the instant of the first \<open>end()\<close> or finalization, or of the destruction.
\<close>

theorem timer_emits_exactly_once:
  "lifetime name t0 ops t_end = [(name, effective_start t0 ops, effective_end t_end ops)]
   \<and> (\<forall>n. length (snd (run_ops (take n ops) (TimeRecorder_new name t0))) \<le> 1)"
proof -
  let ?r = "TimeRecorder_new name t0"
  have p: "\<not> uploaded ?r" "\<not> is_end ?r" "\<not> is_start ?r" by (simp_all add: TimeRecorder_new_def)
  have "lifetime name t0 ops t_end = [(name, effective_start t0 ops, effective_end t_end ops)]"
    using run_ops_fresh[OF p, of ops t_end] by (simp add: lifetime_def split_beta TimeRecorder_new_def)
  moreover have "length (snd (run_ops (take n ops) ?r)) \<le> 1" for n
    using run_ops_fresh[OF p, of "take n ops" t_end] by simp
  ultimately show ?thesis by blast
qed

text \<open>
  Claim C3 as stated fails when \<open>start()\<close> is called only after \<open>end()\<close>: the recorder
  created at 1, ended at 5, started at 7 and destroyed at 9 has emitted the creation
  instant 1 as its start, not the instant 7 of the call of \<open>start()\<close>.
\<close>

theorem timer_start_after_end_counterexample:
  "map (\<lambda>e. fst (snd e)) (lifetime ''t'' 1 [End 5, Start 7] 9) = [1] \<and>
   spec_effective_start 1 [End 5, Start 7] = 7"
  by (simp add: lifetime_def TimeRecorder_new_def end_recorder_def upload_def start_def destroy_def)

section \<open>Recursive removal\<close>

lemma child_rel_edges: "child_rel s = edges (children s)"
  by (simp add: child_rel_def edges_def)

lemma edges_delete: "edges (AList.delete x al) = {(p, c). (p, c) \<in> edges al \<and> p \<noteq> x}"
  by (auto simp: edges_def delete_conv split: if_splits)

lemma reach_step_some:
  assumes "map_of al x = Some cs"
  shows "(edges al)\<^sup>* `` (insert x Q) = insert x ((edges (AList.delete x al))\<^sup>* `` (Q \<union> set cs))"
proof (intro equalityI subsetI)
  fix y assume "y \<in> (edges al)\<^sup>* `` (insert x Q)"
  then obtain a where a: "a \<in> insert x Q" "(a, y) \<in> (edges al)\<^sup>*" by auto
  from a(2) a(1) show "y \<in> insert x ((edges (AList.delete x al))\<^sup>* `` (Q \<union> set cs))"
  proof (induction rule: rtrancl_induct)
    case base then show ?case by auto
  next
    case (step y z)
    show ?case
    proof (cases "y = x")
      case True
      with step.hyps(2) assms have "z \<in> set cs" by (auto simp: edges_def)
      then show ?thesis by auto
    next
      case False
      with step.IH[OF step.prems] obtain b where b: "b \<in> Q \<union> set cs" "(b, y) \<in> (edges (AList.delete x al))\<^sup>*"
        by auto
      from False step.hyps(2) have "(y, z) \<in> edges (AList.delete x al)" by (simp add: edges_delete)
      with b(2) have "(b, z) \<in> (edges (AList.delete x al))\<^sup>*" by (rule rtrancl_into_rtrancl)
      with b(1) show ?thesis by auto
    qed
  qed
next
  fix y assume y: "y \<in> insert x ((edges (AList.delete x al))\<^sup>* `` (Q \<union> set cs))"
  have sub: "(edges (AList.delete x al))\<^sup>* \<subseteq> (edges al)\<^sup>*"
    by (rule rtrancl_mono) (auto simp: edges_delete)
  show "y \<in> (edges al)\<^sup>* `` (insert x Q)"
  proof (cases "y = x")
    case True then show ?thesis by auto
  next
    case False
    with y obtain b where b: "b \<in> Q \<union> set cs" "(b, y) \<in> (edges (AList.delete x al))\<^sup>*" by auto
    then have byr: "(b, y) \<in> (edges al)\<^sup>*" using sub by auto
    show ?thesis
    proof (cases "b \<in> Q")
      case True with byr show ?thesis by auto
    next
      case False
      with b(1) assms have "(x, b) \<in> edges al" by (auto simp: edges_def)
      then have "(x, y) \<in> (edges al)\<^sup>*" using byr by (rule converse_rtrancl_into_rtrancl)
      then show ?thesis by auto
    qed
  qed
qed

lemma reach_step_none:
  assumes "map_of al x = None"
  shows "(edges al)\<^sup>* `` (insert x Q) = insert x ((edges al)\<^sup>* `` Q)"
proof -
  have "y = x" if "(x, y) \<in> (edges al)\<^sup>*" for y
    using that assms by (induction rule: rtrancl_induct) (auto simp: edges_def)
  then show ?thesis by auto
qed

lemma delete_as_filter: "AList.delete x al = filter (\<lambda>p. fst p \<noteq> x) al"
  by (induction al) auto

lemma map_of_None_iff: "map_of al x = None \<longleftrightarrow> x \<notin> fst ` set al"
  by (simp add: map_of_eq_None_iff)

lemma filter_insert_key:
  "filter (\<lambda>p. fst p \<notin> R1) (filter (\<lambda>p. fst p \<noteq> x) al) = filter (\<lambda>p. fst p \<notin> insert x R1) al"
  by (induction al) auto

lemma keys_filter_ne: "fst ` set (filter (\<lambda>p. fst p \<noteq> x) al) = fst ` set al - {x}"
  by force

lemma removal_post_step:
  assumes post: "removal_post R1 s1 s' new"
    and e: "entries s1 = filter (\<lambda>p. fst p \<noteq> x) (entries s)"
    and c: "children s1 = filter (\<lambda>p. fst p \<noteq> x) (children s)"
  shows "removal_post (insert x R1) s s'
           ((if x \<in> fst ` set (children s) then [ChildSet x] else []) @
            (if x \<in> fst ` set (entries s) then [Entry x] else []) @ new)"
proof -
  from post have p1: "entries s' = filter (\<lambda>p. fst p \<notin> R1) (entries s1)"
    and p2: "children s' = filter (\<lambda>p. fst p \<notin> R1) (children s1)"
    and p3: "distinct new"
    and p4: "set new = ChildSet ` (R1 \<inter> fst ` set (children s1)) \<union> Entry ` (R1 \<inter> fst ` set (entries s1))"
    by (simp_all add: removal_post_def)
  have q1: "entries s' = filter (\<lambda>p. fst p \<notin> insert x R1) (entries s)"
    using p1 e by (simp only: filter_insert_key)
  have q2: "children s' = filter (\<lambda>p. fst p \<notin> insert x R1) (children s)"
    using p2 c by (simp only: filter_insert_key)
  have p4': "set new = ChildSet ` (R1 \<inter> (fst ` set (children s) - {x})) \<union> Entry ` (R1 \<inter> (fst ` set (entries s) - {x}))"
    using p4 by (simp only: e c keys_filter_ne)
  have n1: "ChildSet x \<notin> set new" "Entry x \<notin> set new" using p4' by auto
  have q3: "distinct ((if x \<in> fst ` set (children s) then [ChildSet x] else []) @
            (if x \<in> fst ` set (entries s) then [Entry x] else []) @ new)"
    using p3 n1 by simp
  have q4: "set ((if x \<in> fst ` set (children s) then [ChildSet x] else []) @
            (if x \<in> fst ` set (entries s) then [Entry x] else []) @ new)
        = ChildSet ` (insert x R1 \<inter> fst ` set (children s)) \<union> Entry ` (insert x R1 \<inter> fst ` set (entries s))"
    unfolding set_append p4' by auto
  show ?thesis unfolding removal_post_def using q1 q2 q3 q4 by blast
qed

lemma remove_loop_post:
  "\<exists>new. snd (snd (remove_loop q s rk er)) = er @ new \<and>
     removal_post ((edges (children s))\<^sup>* `` set q) s (fst (remove_loop q s rk er)) new"
proof (induction q s rk er rule: remove_loop.induct)
  case (1 s rk er)
  show ?case by (simp add: removal_post_def)
next
  case (2 x q s rk er)
  let ?R = "(edges (children s))\<^sup>* `` set (x # q)"
  let ?e = "if map_of (entries s) x = None then [] else [Entry x]"
  have e_eq: "?e = (if x \<in> fst ` set (entries s) then [Entry x] else [])"
    by (simp add: map_of_None_iff)
  show ?case
  proof (cases "map_of (children s) x")
    case None
    let ?s1 = "s\<lparr>entries := AList.delete x (entries s)\<rparr>"
    let ?R1 = "(edges (children ?s1))\<^sup>* `` set q"
    have me: "map_erase x s = (?s1, ?e)" by (simp add: map_erase_def)
    from "2.IH"(1)[OF None me[symmetric]] obtain new where
      new: "snd (snd (remove_loop q ?s1 rk (er @ ?e))) = (er @ ?e) @ new"
           "removal_post ?R1 ?s1 (fst (remove_loop q ?s1 rk (er @ ?e))) new" by blast
    have R: "?R = insert x ?R1" using reach_step_none[OF None, of "set q"] by simp
    have unf: "remove_loop (x # q) s rk er = remove_loop q ?s1 rk (er @ ?e)"
      using None me by simp
    have xnc: "x \<notin> fst ` set (children s)" using None by (simp add: map_of_None_iff)
    have c1: "children ?s1 = filter (\<lambda>p. fst p \<noteq> x) (children s)"
    proof -
      have "filter (\<lambda>p. fst p \<noteq> x) (children s) = children s"
        using xnc by (intro filter_True) force
      then show ?thesis by simp
    qed
    have e1: "entries ?s1 = filter (\<lambda>p. fst p \<noteq> x) (entries s)"
      by (simp add: delete_as_filter)
    from removal_post_step[OF new(2) e1 c1] xnc
    have "removal_post ?R s (fst (remove_loop q ?s1 rk (er @ ?e))) (?e @ new)"
      unfolding R e_eq by simp
    with new(1) unf show ?thesis by auto
  next
    case (Some cs)
    let ?s0 = "s\<lparr>children := AList.delete x (children s)\<rparr>"
    let ?s1 = "?s0\<lparr>entries := AList.delete x (entries s)\<rparr>"
    let ?R1 = "(edges (children ?s1))\<^sup>* `` set (q @ cs)"
    have me: "map_erase x ?s0 = (?s1, ?e)" by (simp add: map_erase_def)
    from "2.IH"(2)[OF Some me[symmetric]] obtain new where
      new: "snd (snd (remove_loop (q @ cs) ?s1 (rk @ cs) (er @ [ChildSet x] @ ?e))) = (er @ [ChildSet x] @ ?e) @ new"
           "removal_post ?R1 ?s1 (fst (remove_loop (q @ cs) ?s1 (rk @ cs) (er @ [ChildSet x] @ ?e))) new" by blast
    have R: "?R = insert x ?R1" using reach_step_some[OF Some, of "set q"] by simp
    have unf: "remove_loop (x # q) s rk er = remove_loop (q @ cs) ?s1 (rk @ cs) (er @ [ChildSet x] @ ?e)"
      using Some me by simp
    have xc: "x \<in> fst ` set (children s)" using Some by (metis map_of_None_iff option.distinct(1))
    have c1: "children ?s1 = filter (\<lambda>p. fst p \<noteq> x) (children s)"
      by (simp add: delete_as_filter)
    have e1: "entries ?s1 = filter (\<lambda>p. fst p \<noteq> x) (entries s)"
      by (simp add: delete_as_filter)
    from removal_post_step[OF new(2) e1 c1] xc
    have "removal_post ?R s (fst (remove_loop (q @ cs) ?s1 (rk @ cs) (er @ [ChildSet x] @ ?e))) ([ChildSet x] @ ?e @ new)"
      unfolding R e_eq by simp
    with new(1) unf show ?thesis by auto
  qed
qed

lemma parent_store_eq:
  "parent_store = \<lparr>entries = [(''parent'', Some 1)], children = [(''parent'', [])]\<rparr>"
  by (simp add: parent_store_def AddData_def HierarchicalMap_new_def children_emplace_def)

lemma parent_child_store_eq:
  "parent_child_store =
     \<lparr>entries = [(''parent'', Some 1), (''child'', Some 1)],
      children = [(''parent'', [''child'']), (''child'', [])]\<rparr>"
  by (simp add: parent_child_store_def parent_store_eq AddData_def children_emplace_def
      children_insert_def)

lemma RemoveKeyRecursive_post:
  "removal_post (descendants s k) s (fst (RemoveKeyRecursive k s)) (snd (snd (RemoveKeyRecursive k s)))"
proof -
  from remove_loop_post[of "[k]" s "[k]" "[]"] obtain new where
    n: "snd (snd (remove_loop [k] s [k] [])) = new"
       "removal_post ((edges (children s))\<^sup>* `` set [k]) s (fst (remove_loop [k] s [k] [])) new"
    by auto
  have d: "(edges (children s))\<^sup>* `` set [k] = descendants s k"
    by (simp add: descendants_def child_rel_edges)
  show ?thesis using n unfolding d by (simp add: RemoveKeyRecursive_def split_beta)
qed

lemma self_descendant: "k \<in> descendants s k"
  by (simp add: descendants_def)

lemma GetKeyGuard_Some:
  "GetKeyGuard k s = Some g \<longleftrightarrow>
     (\<exists>d. map_of (entries s) k = Some d \<and> g = \<lparr>guard_ptr = d, guard_key = k, use_count = 1\<rparr>)"
  by (auto simp: GetKeyGuard_def split: option.splits)

lemma guard_key_copy_guard: "guard_key (copy_guard g) = guard_key g"
  by (simp add: copy_guard_def)

text \<open>
  Claim C1: let \<open>g\<close> be a guard for \<open>k\<close> (what \<open>GetKeyGuard\<close> returns for a key that
  is in the store, or a copy of it) that is the last owner of its control block. Dropping
  it in any store state \<open>s\<close>, so also in every state in which \<open>k\<close> exists, removes from
  both tables exactly the keys reachable from \<open>k\<close> through the children relation of
  \<open>s\<close>, \<open>k\<close> among them, erases each table entry of such a key exactly once and no other
  entry, and afterwards neither \<open>FindData\<close> nor \<open>GetKeyGuard\<close> finds a removed key.
\<close>

theorem drop_last_guard_removes_descendants:
  assumes "guard_key g = k" and "use_count g = 1"
  shows "case drop_guard g s of (g', s', out, erased) \<Rightarrow>
       g' = None \<and>
       entries s' = filter (\<lambda>p. fst p \<notin> descendants s k) (entries s) \<and>
       children s' = filter (\<lambda>p. fst p \<notin> descendants s k) (children s) \<and>
       distinct erased \<and>
       set erased = ChildSet ` (descendants s k \<inter> fst ` set (children s)) \<union>
                    Entry ` (descendants s k \<inter> fst ` set (entries s)) \<and>
       k \<in> descendants s k \<and>
       (\<forall>x \<in> descendants s k. FindData x s' = None \<and> GetKeyGuard x s' = None)"
proof -
  let ?r = "RemoveKeyRecursive k s"
  have post: "removal_post (descendants s k) s (fst ?r) (snd (snd ?r))"
    by (rule RemoveKeyRecursive_post)
  have dg: "drop_guard g s = (None, fst ?r, [fst (snd ?r)], snd (snd ?r))"
    using assms by (simp add: drop_guard_def split_beta)
  have ent: "entries (fst ?r) = filter (\<lambda>p. fst p \<notin> descendants s k) (entries s)"
    using post by (simp add: removal_post_def)
  have gone: "FindData x (fst ?r) = None \<and> GetKeyGuard x (fst ?r) = None"
    if "x \<in> descendants s k" for x
  proof -
    have "map_of (entries (fst ?r)) x = None"
      unfolding ent map_of_None_iff using that by auto
    then show ?thesis by (simp add: FindData_def GetKeyGuard_def)
  qed
  show ?thesis using post gone self_descendant[of k s]
    unfolding dg removal_post_def by simp
qed

text \<open>
  The store in which \<open>child\<close> was derived from \<open>parent\<close>: the guard that
  \<open>GetKeyGuard\<close> returns for \<open>parent\<close> is such a guard, and dropping it leaves neither
  key to be found.
\<close>

theorem drop_last_guard_removes_descendants_witness:
  "GetKeyGuard ''parent'' parent_child_store
     = Some \<lparr>guard_ptr = Some 1, guard_key = ''parent'', use_count = 1\<rparr> \<and>
   FindData ''child'' parent_child_store = Some 1 \<and>
   FindData ''child''
     (fst (snd (drop_guard \<lparr>guard_ptr = Some 1, guard_key = ''parent'', use_count = 1\<rparr>
        parent_child_store))) = None \<and>
   FindData ''parent''
     (fst (snd (drop_guard \<lparr>guard_ptr = Some 1, guard_key = ''parent'', use_count = 1\<rparr>
        parent_child_store))) = None"
proof -
  let ?g = "\<lparr>guard_ptr = Some (1::nat), guard_key = ''parent'', use_count = 1\<rparr>"
  have a: "GetKeyGuard ''parent'' parent_child_store = Some ?g"
    by (simp add: parent_child_store_eq GetKeyGuard_def)
  have b: "FindData ''child'' parent_child_store = Some 1"
    by (simp add: parent_child_store_eq FindData_def)
  have h1: "guard_key ?g = ''parent''" and h2: "use_count ?g = 1" by simp_all
  have "(''parent'', ''child'') \<in> child_rel parent_child_store"
    by (simp add: child_rel_def parent_child_store_eq)
  then have c: "''child'' \<in> descendants parent_child_store ''parent''"
    by (auto simp: descendants_def)
  have p: "''parent'' \<in> descendants parent_child_store ''parent''"
    by (simp add: descendants_def)
  from drop_last_guard_removes_descendants[OF h1 h2, of parent_child_store] c p a b
  show ?thesis by (auto simp: split_beta)
qed

section \<open>Merging of spans\<close>

lemma map_of_ordered_assign: "map_of (ordered_assign k v m) = (map_of m)(k \<mapsto> v)"
  by (induction m) (auto simp: fun_eq_iff)

lemma map_of_merge_span:
  "map_of (merge_span (n, s, t) m) =
     (map_of m)(n \<mapsto> (case map_of m n of None \<Rightarrow> (s, t) | Some (a, b) \<Rightarrow> (min a s, max b t)))"
  by (auto simp: merge_span_def Let_def spans_at_def map_of_ordered_assign fun_eq_iff
      split: option.splits)

lemma deliver_Cons: "deliver (e # es) m = deliver es (merge_span e m)"
  by (simp add: deliver_def)

lemma starts_of_simps:
  "starts_of n [] = []"
  "starts_of n (e # es) = (if fst e = n then fst (snd e) # starts_of n es else starts_of n es)"
  by (simp_all add: starts_of_def)

lemma ends_of_simps:
  "ends_of n [] = []"
  "ends_of n (e # es) = (if fst e = n then snd (snd e) # ends_of n es else ends_of n es)"
  by (simp_all add: ends_of_def)

lemma set_starts_of: "set (starts_of n es) = (\<lambda>e. fst (snd e)) ` {e \<in> set es. fst e = n}"
  by (auto simp: starts_of_def)

lemma set_ends_of: "set (ends_of n es) = (\<lambda>e. snd (snd e)) ` {e \<in> set es. fst e = n}"
  by (auto simp: ends_of_def)

text \<open>A name that is stored keeps widening: the fold of \<open>min\<close> and \<open>max\<close>.\<close>

lemma deliver_present:
  "map_of m n = Some (a, b) \<Longrightarrow>
   map_of (deliver es m) n = Some (fold min (starts_of n es) a, fold max (ends_of n es) b)"
proof (induction es arbitrary: m a b)
  case Nil
  then show ?case by (simp add: deliver_def starts_of_simps ends_of_simps)
next
  case (Cons e es)
  obtain n' s t where e: "e = (n', s, t)" by (cases e) auto
  show ?case
  proof (cases "n' = n")
    case True
    have "map_of (merge_span e m) n = Some (min a s, max b t)"
      using Cons.prems by (simp add: e True map_of_merge_span)
    from Cons.IH[OF this]
    have d: "map_of (deliver (e # es) m) n =
       Some (fold min (starts_of n es) (min a s), fold max (ends_of n es) (max b t))"
      by (simp add: deliver_Cons)
    have st: "starts_of n (e # es) = s # starts_of n es" "ends_of n (e # es) = t # ends_of n es"
      by (simp_all add: e True starts_of_simps ends_of_simps)
    show ?thesis unfolding st d by (simp add: min.commute[of s a] max.commute[of t b])
  next
    case False
    have "map_of (merge_span e m) n = Some (a, b)"
      using Cons.prems False by (simp add: e map_of_merge_span)
    from Cons.IH[OF this] show ?thesis
      using False by (simp add: deliver_Cons e starts_of_simps ends_of_simps)
  qed
qed

text \<open>A name that is not stored yet: the first emission for it establishes the pair.\<close>

lemma deliver_absent:
  "map_of m n = None \<Longrightarrow>
   map_of (deliver es m) n =
     (case starts_of n es of [] \<Rightarrow> None
      | s # ss \<Rightarrow> Some (Min (set (starts_of n es)), Max (set (ends_of n es))))"
proof (induction es arbitrary: m)
  case Nil
  then show ?case by (simp add: deliver_def starts_of_simps)
next
  case (Cons e es)
  obtain n' s t where e: "e = (n', s, t)" by (cases e) auto
  show ?case
  proof (cases "n' = n")
    case True
    have "map_of (merge_span e m) n = Some (s, t)"
      using Cons.prems by (simp add: e True map_of_merge_span)
    from deliver_present[OF this, of es]
    have d: "map_of (deliver (e # es) m) n =
       Some (fold min (starts_of n es) s, fold max (ends_of n es) t)"
      by (simp add: deliver_Cons)
    have st: "starts_of n (e # es) = s # starts_of n es" "ends_of n (e # es) = t # ends_of n es"
      by (simp_all add: e True starts_of_simps ends_of_simps)
    show ?thesis unfolding st d Min.set_eq_fold Max.set_eq_fold by simp
  next
    case False
    have "map_of (merge_span e m) n = None"
      using Cons.prems False by (simp add: e map_of_merge_span)
    from Cons.IH[OF this]
    have d: "map_of (deliver (e # es) m) n =
       (case starts_of n es of [] \<Rightarrow> None
        | s # ss \<Rightarrow> Some (Min (set (starts_of n es)), Max (set (ends_of n es))))"
      by (simp add: deliver_Cons e)
    have st: "starts_of n (e # es) = starts_of n es" "ends_of n (e # es) = ends_of n es"
      using False by (simp_all add: e starts_of_simps ends_of_simps)
    show ?thesis unfolding st d ..
  qed
qed

text \<open>
  Claim C2: when the emissions \<open>es\<close> are delivered, in the order of the list and mixed
  with emissions for other names, to an aggregator that does not hold the name \<open>n\<close> yet,
  and at least one of them is for \<open>n\<close>, the pair stored for \<open>n\<close> is the least of the
  emitted starts and the greatest of the emitted ends for \<open>n\<close>; every other order of
  delivery of the same emissions stores the same pair.
\<close>

theorem merged_span_is_min_max:
  assumes "map_of m n = None" and "\<exists>e \<in> set es. fst e = n"
  shows "map_of (deliver es m) n =
           Some (Min ((\<lambda>e. fst (snd e)) ` {e \<in> set es. fst e = n}),
                 Max ((\<lambda>e. snd (snd e)) ` {e \<in> set es. fst e = n}))
         \<and> (\<forall>es'. mset es' = mset es \<longrightarrow> map_of (deliver es' m) n = map_of (deliver es m) n)"
proof -
  have ne: "starts_of n xs \<noteq> []" if "set xs = set es" for xs
  proof -
    from assms(2) obtain e where "e \<in> set es" "fst e = n" by blast
    with that have "fst (snd e) \<in> set (starts_of n xs)" by (simp add: set_starts_of)
    then show ?thesis by auto
  qed
  have val: "map_of (deliver xs m) n =
           Some (Min ((\<lambda>e. fst (snd e)) ` {e \<in> set es. fst e = n}),
                 Max ((\<lambda>e. snd (snd e)) ` {e \<in> set es. fst e = n}))" if "set xs = set es" for xs
  proof -
    from ne[OF that] obtain a as where "starts_of n xs = a # as" by (cases "starts_of n xs") auto
    then have "map_of (deliver xs m) n = Some (Min (set (starts_of n xs)), Max (set (ends_of n xs)))"
      using deliver_absent[OF assms(1), of xs] by simp
    then show ?thesis unfolding set_starts_of set_ends_of that .
  qed
  have perm: "map_of (deliver es' m) n = map_of (deliver es m) n" if "mset es' = mset es" for es'
  proof -
    from that have "set es' = set es" by (rule mset_eq_setD)
    from val[OF this] val[OF refl] show ?thesis by (rule trans[OF _ sym])
  qed
  show ?thesis
  proof (intro conjI allI impI)
    show "map_of (deliver es m) n =
           Some (Min ((\<lambda>e. fst (snd e)) ` {e \<in> set es. fst e = n}),
                 Max ((\<lambda>e. snd (snd e)) ` {e \<in> set es. fst e = n}))"
      by (rule val[OF refl])
  next
    fix es' :: "emission list" assume "mset es' = mset es"
    then show "map_of (deliver es' m) n = map_of (deliver es m) n" by (rule perm)
  qed
qed

text \<open>
  Three emissions for \<open>a\<close> that do not overlap in time, with one for \<open>b\<close> between
  them, delivered to the empty aggregator: \<open>a\<close> covers 3 to 12.
\<close>

theorem merged_span_is_min_max_witness:
  "map_of ([] :: spans_map) ''a'' = None \<and>
   map_of (deliver [(''a'', 5, 6), (''b'', 1, 2), (''a'', 3, 4), (''a'', 11, 12)] []) ''a''
     = Some (3, 12)"
proof -
  have h1: "map_of ([]::spans_map) ''a'' = None" by simp
  have h2: "\<exists>e \<in> set [(''a'', 5::int, 6::int), (''b'', 1, 2), (''a'', 3, 4), (''a'', 11, 12)].
              fst e = ''a''" by simp
  have s: "{e \<in> set [(''a'', 5::int, 6::int), (''b'', 1, 2), (''a'', 3, 4), (''a'', 11, 12)].
              fst e = ''a''}
     = {(''a'', 5, 6), (''a'', 3, 4), (''a'', 11, 12)}" by auto
  from merged_span_is_min_max[OF h1 h2] show ?thesis unfolding s by simp
qed

section \<open>Log fields and the report of a ThreadData\<close>

lemma keys_ordered_assign: "fst ` set (ordered_assign k v m) = insert k (fst ` set m)"
  by (induction m) auto

text \<open>\<open>ordered_assign\<close> keeps the keys strictly ascending, as \<open>std::map\<close> does.\<close>

lemma sorted_ordered_assign:
  "sorted_wrt (<) (map fst m) \<Longrightarrow> sorted_wrt (<) (map fst (ordered_assign k v m))"
proof (induction m)
  case Nil then show ?case by simp
next
  case (Cons p ps)
  from Cons.prems have above: "\<forall>x \<in> fst ` set ps. fst p < x" and rest: "sorted_wrt (<) (map fst ps)"
    by simp_all
  show ?case
  proof (cases "k < fst p")
    case True
    then have "\<forall>x \<in> fst ` set ps. k < x" using above by (meson less_trans)
    with True Cons.prems show ?thesis by simp
  next
    case False
    show ?thesis
    proof (cases "k = fst p")
      case True
      with Cons.prems show ?thesis by simp
    next
      case ne: False
      with False have "fst p < k" by simp
      with above have "\<forall>x \<in> fst ` set (ordered_assign k v ps). fst p < x"
        by (simp add: keys_ordered_assign)
      with False ne Cons.IH[OF rest] show ?thesis by simp
    qed
  qed
qed

lemma ThreadData_new_sorted: "sorted_wrt (<) (map fst (log_fields (ThreadData_new l)))"
  by (simp add: ThreadData_new_def)

lemma add_log_field_sorted:
  "sorted_wrt (<) (map fst (log_fields d)) \<Longrightarrow>
   sorted_wrt (<) (map fst (log_fields (add_log_field k v ow d)))"
  by (simp add: add_log_field_def sorted_ordered_assign)

lemma sorted_keys_list:
  assumes "sorted_wrt (<) (map fst al)"
  shows "sorted_list_of_set (fst ` set al) = map fst al"
proof -
  from assms have "sorted (map fst al)" "distinct (map fst al)" by (simp_all add: strict_sorted_iff)
  then have "sorted_list_of_set (set (map fst al)) = map fst al"
    by (intro sorted_list_of_set.idem_if_sorted_distinct) simp_all
  then show ?thesis by simp
qed

lemma map_lookup_keys:
  "distinct (map fst al) \<Longrightarrow>
   map (\<lambda>k. g k (the (map_of al k))) (map fst al) = map (\<lambda>p. g (fst p) (snd p)) al"
proof (induction al)
  case Nil then show ?case by simp
next
  case (Cons p ps)
  then have "map (\<lambda>k. g k (the (map_of (p # ps) k))) (map fst ps)
           = map (\<lambda>k. g k (the (map_of ps k))) (map fst ps)"
    by (intro map_cong) (auto simp: image_iff)
  with Cons show ?case by (simp add: comp_def)
qed

text \<open>
  Claim C9, as the code has it: a second \<open>add_log_field(k, v2)\<close> without overwrite
  changes nothing, whatever the first call did; with overwrite it stores \<open>v2\<close>. The first
  call stores \<open>v1\<close> when \<open>k\<close> was absent or the call asked to overwrite, and is itself
  a no-op when \<open>k\<close> was present and it did not.
\<close>

theorem add_log_field_first_write_wins:
  "add_log_field k v2 False (add_log_field k v1 ow d) = add_log_field k v1 ow d \<and>
   map_of (log_fields (add_log_field k v2 True (add_log_field k v1 ow d))) k = Some v2 \<and>
   (map_of (log_fields d) k = None \<or> ow \<longrightarrow>
      map_of (log_fields (add_log_field k v1 ow d)) k = Some v1) \<and>
   (map_of (log_fields d) k \<noteq> None \<and> \<not> ow \<longrightarrow> add_log_field k v1 ow d = d)"
  by (auto simp: add_log_field_def map_of_ordered_assign)

text \<open>On a new \<open>ThreadData\<close> the key is absent: the field stays at \<open>v1\<close>, or becomes \<open>v2\<close>.\<close>

theorem add_log_field_first_write_wins_witness:
  "map_of (log_fields (ThreadData_new ''id'')) ''k'' = None \<and>
   map_of (log_fields (add_log_field ''k'' ''v2'' False
     (add_log_field ''k'' ''v1'' False (ThreadData_new ''id'')))) ''k'' = Some ''v1'' \<and>
   map_of (log_fields (add_log_field ''k'' ''v2'' True
     (add_log_field ''k'' ''v1'' False (ThreadData_new ''id'')))) ''k'' = Some ''v2''"
proof -
  have h: "map_of (log_fields (ThreadData_new ''id'')) ''k'' = None"
    by (simp add: ThreadData_new_def)
  from add_log_field_first_write_wins[of "''k''" "''v2''" "''v1''" False "ThreadData_new ''id''"] h
  show ?thesis by simp
qed

text \<open>
  Claim C9 as stated fails on a context that holds \<open>k\<close> already: after
  \<open>add_log_field(k, v1)\<close> and \<open>add_log_field(k, v2)\<close> the field is still at its
  earlier value \<open>v0\<close>, not at \<open>v1\<close>.
\<close>

theorem add_log_field_present_key_counterexample:
  "map_of (log_fields (add_log_field ''k'' ''v2'' False (add_log_field ''k'' ''v1'' False
      (add_log_field ''k'' ''v0'' False (ThreadData_new ''id''))))) ''k'' = Some ''v0'' \<and>
   ''v0'' \<noteq> ''v1''"
  by (simp add: add_log_field_def ThreadData_new_def)

text \<open>
  Claim C6, as the code has it: for a \<open>ThreadData\<close> whose field map is a
  \<open>std::map\<close> (keys strictly ascending, which a new \<open>ThreadData\<close> has and
  \<open>add_log_field\<close> keeps), \<open>report()\<close> is \<open>[logid: <id>]\<close>, then
  \<open> [<key>: <value>]\<close> for every field key in ascending order, then one space, then the
  report of the aggregator, also when that report is empty.
\<close>

theorem report_layout:
  assumes "sorted_wrt (<) (map fst (log_fields d))"
  shows "fst (ThreadData_report clk (d, h)) =
     ''[logid: '' @ logid d @ '']'' @
     concat (map (\<lambda>k. '' ['' @ k @ '': '' @ the (map_of (log_fields d) k) @ '']'')
               (sorted_list_of_set (fst ` set (log_fields d)))) @
     '' '' @ fst (TimeCounter_report clk (tc d, h))"
proof -
  from assms have dist: "distinct (map fst (log_fields d))" by (simp add: strict_sorted_iff)
  have "map (\<lambda>k. '' ['' @ k @ '': '' @ the (map_of (log_fields d) k) @ '']'')
               (sorted_list_of_set (fst ` set (log_fields d)))
      = map (\<lambda>item. '' ['' @ fst item @ '': '' @ snd item @ '']'') (log_fields d)"
    unfolding sorted_keys_list[OF assms]
    by (rule map_lookup_keys[OF dist, of "\<lambda>k v. '' ['' @ k @ '': '' @ v @ '']''"])
  then show ?thesis by (simp add: ThreadData_report_def split_beta)
qed

text \<open>
  The example: the fields come out in ascending key order, the span after one space.
\<close>

theorem report_layout_witness:
  "sorted_wrt (<) (map fst (log_fields example_data)) \<and>
   fst (ThreadData_report (\<lambda>i. 0) (example_data, Map.empty))
     = ''[logid: x] [a: 1] [b: 2] [s: 1.500(ms)]''"
proof -
  have h: "sorted_wrt (<) (map fst (log_fields example_data))" by code_simp
  from report_layout[OF h, of "\<lambda>i. 0" Map.empty]
  have e: "fst (ThreadData_report (\<lambda>i. 0) (example_data, Map.empty)) =
     ''[logid: '' @ logid example_data @ '']'' @
     concat (map (\<lambda>k. '' ['' @ k @ '': '' @ the (map_of (log_fields example_data) k) @ '']'')
               (sorted_list_of_set (fst ` set (log_fields example_data)))) @
     '' '' @ fst (TimeCounter_report (\<lambda>i. 0) (tc example_data, Map.empty))" (is "_ = ?R") .
  have r: "?R = ''[logid: x] [a: 1] [b: 2] [s: 1.500(ms)]''" by code_simp
  from e r have "fst (ThreadData_report (\<lambda>i. 0) (example_data, Map.empty))
     = ''[logid: x] [a: 1] [b: 2] [s: 1.500(ms)]''" by (rule trans)
  with h show ?thesis by (rule conjI)
qed

text \<open>
  Claim C6 as stated fails on a context without fields and spans: the code writes the
  label \<open>logid\<close> and ends the report with a space, where the claim has the label
  \<open>identifier\<close> and nothing trailing.
\<close>

theorem report_layout_counterexample:
  "fst (ThreadData_report (\<lambda>i. 0) (ThreadData_new ''x'', Map.empty)) = ''[logid: x] '' \<and>
   spec_report ''x'' (log_fields (ThreadData_new ''x''))
     (fst (TimeCounter_report (\<lambda>i. 0) (tc (ThreadData_new ''x''), Map.empty)))
     = ''[identifier: x]''"
  by code_simp

section \<open>The report of a TimeCounter\<close>

lemma spec_join_append_head: "spec_join ((a @ b) # xs) = a @ spec_join (b # xs)"
  by (cases xs) simp_all

lemma foldl_join: "foldl (\<lambda>result x. result @ '' '' @ x) v vs = spec_join (v # vs)"
proof (induction vs arbitrary: v)
  case Nil then show ?case by simp
next
  case (Cons x xs)
  have "foldl (\<lambda>result x. result @ '' '' @ x) v (x # xs) = spec_join ((v @ '' '' @ x) # xs)"
    using Cons.IH[of "v @ '' '' @ x"] by simp
  also have "\<dots> = v @ spec_join (('' '' @ x) # xs)" by (rule spec_join_append_head)
  also have "\<dots> = v @ '' '' @ spec_join (x # xs)" using spec_join_append_head[of "'' ''" x xs] by simp
  finally show ?case by simp
qed

lemma join_view_spec_join: "join_view view = spec_join view"
proof (cases view)
  case Nil
  then show ?thesis by (simp add: join_view_def)
next
  case (Cons v vs)
  show ?thesis unfolding Cons join_view_def list.case by (rule foldl_join)
qed

text \<open>
  What holds of the rendering: entries are joined by single spaces, nothing for no span,
  and an entry whose name has no NUL byte and whose text fits in 99 bytes is whole.
\<close>

lemma short_entry_is_whole:
  assumes "CHR 0x00 \<notin> set (fst item)" and "length (spec_span_entry item) \<le> 99"
  shows "format_span item = spec_span_entry item"
proof -
  have c: "c_str (fst item) = fst item"
    using assms(1) by (auto simp: c_str_def takeWhile_eq_all_conv)
  have "format_span item = take 99 (spec_span_entry item)"
    by (simp only: format_span_def spec_span_entry_def c)
  then show ?thesis using assms(2) by simp
qed

lemma short_entries_render_in_full:
  assumes "\<forall>item \<in> set (spans c).
             CHR 0x00 \<notin> set (fst item) \<and> length (spec_span_entry item) \<le> 99"
  shows "fst (TimeCounter_report clk (c\<lparr>trs := []\<rparr>, h))
           = spec_join (map spec_span_entry (spans c))"
proof -
  have m: "map format_span (spans c) = map spec_span_entry (spans c)"
    using assms by (intro map_cong) (auto simp: short_entry_is_whole)
  have "fst (TimeCounter_report clk (c\<lparr>trs := []\<rparr>, h)) = join_view (map format_span (spans c))"
    by (simp add: TimeCounter_report_def)
  then show ?thesis unfolding m join_view_spec_join .
qed

text \<open>
  Claim C7 at a span whose name has 100 bytes: a recorder with that name is added at
  instant 0 and ended by \<open>report()\<close> at instant 100. The code renders the first 99 bytes
  of the entry, \<open>[\<close> and 98 bytes of the name; the claim's entry is the whole name
  followed by \<open>: 0.100(ms)]\<close>. The spans of the claim's own example render as it says.
\<close>

theorem long_span_name_is_cut:
  "fst (TimeCounter_report (\<lambda>i. 100)
         (snd (add_recorder (replicate 100 (CHR ''a'')) 0 7 (TimeCounter_new, Map.empty))))
     = CHR ''['' # replicate 98 (CHR ''a'') \<and>
   spans (fst (snd (TimeCounter_report (\<lambda>i. 100)
         (snd (add_recorder (replicate 100 (CHR ''a'')) 0 7 (TimeCounter_new, Map.empty))))))
     = [(replicate 100 (CHR ''a''), (0, 100))] \<and>
   spec_join (map spec_span_entry [(replicate 100 (CHR ''a''), (0, 100))])
     = CHR ''['' # replicate 100 (CHR ''a'') @ '': 0.100(ms)]'' \<and>
   fst (TimeCounter_report (\<lambda>i. 0)
         (\<lparr>spans = [(''a'', (0, 100)), (''b'', (50, 200))], trs = []\<rparr>, Map.empty))
     = ''[a: 0.100(ms)] [b: 0.150(ms)]''"
  by code_simp

section \<open>Adding keys\<close>

lemma AddData_without_base:
  "baseKey = [] \<or> map_of (entries s) baseKey = None \<Longrightarrow>
   fst (AddData key data baseKey s) =
     \<lparr>entries = AList.update key data (entries s), children = children_emplace key (children s)\<rparr>"
  by (auto simp: AddData_def)

lemma AddData_with_base:
  "baseKey \<noteq> [] \<Longrightarrow> map_of (entries s) baseKey = Some d \<Longrightarrow>
   fst (AddData key data baseKey s) =
     \<lparr>entries = AList.update key d (entries s),
      children = children_emplace key (children_insert baseKey key (children s))\<rparr>"
  by (simp add: AddData_def)

lemma map_of_children_emplace:
  "map_of (children_emplace key cs) p =
     (if p = key \<and> map_of cs key = None then Some [] else map_of cs p)"
  by (simp add: children_emplace_def update_conv')

lemma edges_children_emplace: "edges (children_emplace key cs) = edges cs"
  by (auto simp: edges_def map_of_children_emplace split: if_splits)

lemma map_of_children_insert:
  "map_of (children_insert b key cs) p =
     (if p = b then Some (List.insert key (case map_of cs b of None \<Rightarrow> [] | Some ks \<Rightarrow> ks))
      else map_of cs p)"
  by (simp add: children_insert_def update_conv')

lemma edges_children_insert: "edges (children_insert b key cs) = insert (b, key) (edges cs)"
  by (auto simp: edges_def map_of_children_insert split: if_splits option.splits)

text \<open>
  Claim C4: after \<open>AddData(key, data, baseKey)\<close> with a base key that is given (not the
  empty string, which stands for no base) and present, \<open>key\<close> and \<open>baseKey\<close> hold the
  same pointer, the one \<open>baseKey\<close> held before, and \<open>key\<close> is a child of \<open>baseKey\<close>.
  Working on the payload through one key is working on it through the other: a change made
  through either key is what a read through the other returns.
\<close>

theorem derived_key_shares_payload:
  assumes "baseKey \<noteq> []" and "map_of (entries s) baseKey = Some d"
  shows "map_of (entries (fst (AddData key data baseKey s))) key = Some d \<and>
         map_of (entries (fst (AddData key data baseKey s))) baseKey = Some d \<and>
         FindData key (fst (AddData key data baseKey s)) = FindData baseKey s \<and>
         FindData baseKey (fst (AddData key data baseKey s)) = FindData baseKey s \<and>
         (baseKey, key) \<in> child_rel (fst (AddData key data baseKey s)) \<and>
         (\<forall>f objs. mutate_through key f (fst (AddData key data baseKey s)) objs
                   = mutate_through baseKey f (fst (AddData key data baseKey s)) objs) \<and>
         (\<forall>objs. read_through key (fst (AddData key data baseKey s)) objs
                   = read_through baseKey (fst (AddData key data baseKey s)) objs) \<and>
         (\<forall>a f objs. d = Some a \<longrightarrow>
            mutate_through key f (fst (AddData key data baseKey s)) objs
              = Some (objs(a := f (objs a))) \<and>
            read_through baseKey (fst (AddData key data baseKey s)) (objs(a := f (objs a)))
              = Some (f (objs a)) \<and>
            mutate_through baseKey f (fst (AddData key data baseKey s)) objs
              = Some (objs(a := f (objs a))) \<and>
            read_through key (fst (AddData key data baseKey s)) (objs(a := f (objs a)))
              = Some (f (objs a)))"
proof -
  let ?s' = "fst (AddData key data baseKey s)"
  have a: "?s' = \<lparr>entries = AList.update key d (entries s),
      children = children_emplace key (children_insert baseKey key (children s))\<rparr>"
    using assms by (rule AddData_with_base)
  have k: "map_of (entries ?s') key = Some d" unfolding a by (simp add: update_conv')
  have b: "map_of (entries ?s') baseKey = Some d"
    unfolding a using assms(2) by (simp add: update_conv')
  have fk: "FindData key ?s' = d" using k by (simp add: FindData_def)
  have fb: "FindData baseKey ?s' = d" using b by (simp add: FindData_def)
  have f0: "FindData baseKey s = d" using assms(2) by (simp add: FindData_def)
  have r: "(baseKey, key) \<in> child_rel ?s'"
    unfolding a by (simp add: child_rel_edges edges_children_emplace edges_children_insert)
  show ?thesis using k b r
    by (simp add: fk fb f0 mutate_through_def read_through_def)
qed

text \<open>
  \<open>child\<close> derived from \<open>parent\<close>, with every address holding a new \<open>ThreadData\<close>:
  a log field added through \<open>child\<close> is in the object read through \<open>parent\<close>.
\<close>

theorem derived_key_shares_payload_witness:
  "''parent'' \<noteq> [] \<and> map_of (entries parent_store) ''parent'' = Some (Some 1) \<and>
   FindData ''child'' parent_child_store = Some 1 \<and>
   FindData ''parent'' parent_child_store = Some 1 \<and>
   mutate_through ''child'' (add_log_field ''k'' ''v'' False) parent_child_store
       (\<lambda>a. ThreadData_new ''p'')
     = Some ((\<lambda>a. ThreadData_new ''p'')(1 := add_log_field ''k'' ''v'' False (ThreadData_new ''p''))) \<and>
   read_through ''parent'' parent_child_store
       ((\<lambda>a. ThreadData_new ''p'')(1 := add_log_field ''k'' ''v'' False (ThreadData_new ''p'')))
     = Some (add_log_field ''k'' ''v'' False (ThreadData_new ''p''))"
proof -
  have h1: "''parent'' \<noteq> []" by simp
  have h2: "map_of (entries parent_store) ''parent'' = Some (Some 1)"
    by (simp add: parent_store_eq)
  have f0: "FindData ''parent'' parent_store = Some 1"
    by (simp add: parent_store_eq FindData_def)
  note t = derived_key_shares_payload[OF h1 h2, of "''child''" "Some 2",
      folded parent_child_store_def]
  from t have c0: "FindData ''child'' parent_child_store = FindData ''parent'' parent_store"
    and p0: "FindData ''parent'' parent_child_store = FindData ''parent'' parent_store"
    by blast+
  have c: "FindData ''child'' parent_child_store = Some 1"
    and p: "FindData ''parent'' parent_child_store = Some 1"
    unfolding c0 p0 by (rule f0)+
  from t have "\<forall>a f objs. Some (1::nat) = Some a \<longrightarrow>
            mutate_through ''child'' f parent_child_store objs = Some (objs(a := f (objs a))) \<and>
            read_through ''parent'' parent_child_store (objs(a := f (objs a))) = Some (f (objs a)) \<and>
            mutate_through ''parent'' f parent_child_store objs = Some (objs(a := f (objs a))) \<and>
            read_through ''child'' parent_child_store (objs(a := f (objs a))) = Some (f (objs a))"
    by blast
  from this[rule_format, OF refl, of "add_log_field ''k'' ''v'' False" "\<lambda>a. ThreadData_new ''p''"]
    h1 h2 c p
  show ?thesis by blast
qed

text \<open>
  Claim C8, as the code has it: \<open>AddData\<close> with a base key that is given and absent
  writes one line to \<open>std::cerr\<close> and leaves the store exactly as the same call with
  the empty base key does: \<open>key\<close> is bound to the data passed in, \<open>FindData\<close> returns
  it, and the children relation is what it was, so the call makes \<open>key\<close> a child of
  no key.
\<close>

theorem absent_base_is_as_empty_base:
  assumes "baseKey \<noteq> []" and "map_of (entries s) baseKey = None"
  shows "fst (AddData key data baseKey s) = fst (AddData key data [] s) \<and>
         snd (AddData key data baseKey s)
           = [''there is no basekey in map, basekey: '' @ baseKey @ '' key: '' @ key] \<and>
         snd (AddData key data [] s) = [] \<and>
         FindData key (fst (AddData key data baseKey s)) = data \<and>
         map_of (entries (fst (AddData key data baseKey s))) key = Some data \<and>
         child_rel (fst (AddData key data baseKey s)) = child_rel s"
proof -
  have a: "fst (AddData key data baseKey s) =
     \<lparr>entries = AList.update key data (entries s), children = children_emplace key (children s)\<rparr>"
    using assms(2) by (simp add: AddData_without_base)
  have b: "fst (AddData key data [] s) =
     \<lparr>entries = AList.update key data (entries s), children = children_emplace key (children s)\<rparr>"
    by (simp add: AddData_without_base)
  have c: "snd (AddData key data baseKey s)
           = [''there is no basekey in map, basekey: '' @ baseKey @ '' key: '' @ key]"
    using assms by (simp add: AddData_def)
  have d: "snd (AddData key data [] s) = []" by (simp add: AddData_def)
  show ?thesis unfolding a b using c d
    by (simp add: FindData_def update_conv' child_rel_edges edges_children_emplace)
qed

text \<open>A new key added under a base key that the store does not hold.\<close>

theorem absent_base_is_as_empty_base_witness:
  "''ghost'' \<noteq> [] \<and> map_of (entries parent_store) ''ghost'' = None \<and>
   fst (AddData ''orphan'' (Some 3) ''ghost'' parent_store)
     = fst (AddData ''orphan'' (Some 3) [] parent_store) \<and>
   FindData ''orphan'' (fst (AddData ''orphan'' (Some 3) ''ghost'' parent_store)) = Some 3 \<and>
   child_rel (fst (AddData ''orphan'' (Some 3) ''ghost'' parent_store)) = child_rel parent_store"
proof -
  have h1: "''ghost'' \<noteq> []" by simp
  have h2: "map_of (entries parent_store) ''ghost'' = None" by (simp add: parent_store_eq)
  from absent_base_is_as_empty_base[OF h1 h2, of "''orphan''" "Some 3"] h1 h2
  show ?thesis by blast
qed

text \<open>
  Claim C8 as stated fails on a store that already records \<open>key\<close> as a child: after
  \<open>child\<close> was derived from \<open>parent\<close>, adding \<open>child\<close> again under the absent base
  \<open>ghost\<close> binds it to the new data, and it is still recorded as a child of
  \<open>parent\<close>; removing \<open>parent\<close> afterwards removes it.
\<close>

theorem absent_base_keeps_parent_counterexample:
  "map_of (entries parent_child_store) ''ghost'' = None \<and>
   FindData ''child'' (fst (AddData ''child'' (Some 2) ''ghost'' parent_child_store)) = Some 2 \<and>
   (''parent'', ''child'') \<in> child_rel (fst (AddData ''child'' (Some 2) ''ghost'' parent_child_store)) \<and>
   FindData ''child''
     (fst (RemoveKeyRecursive ''parent''
        (fst (AddData ''child'' (Some 2) ''ghost'' parent_child_store)))) = None"
proof -
  have e: "fst (AddData ''child'' (Some 2) ''ghost'' parent_child_store) =
     \<lparr>entries = [(''parent'', Some 1), (''child'', Some 2)],
      children = [(''parent'', [''child'']), (''child'', [])]\<rparr>"
    by (simp add: parent_child_store_eq AddData_def children_emplace_def)
  have 1: "map_of (entries parent_child_store) ''ghost'' = None"
    by (simp add: parent_child_store_eq)
  have 2: "FindData ''child'' (fst (AddData ''child'' (Some 2) ''ghost'' parent_child_store)) = Some 2"
    unfolding e by (simp add: FindData_def)
  have 3: "(''parent'', ''child'') \<in> child_rel (fst (AddData ''child'' (Some 2) ''ghost'' parent_child_store))"
    unfolding e by (simp add: child_rel_def)
  have 4: "FindData ''child''
     (fst (RemoveKeyRecursive ''parent''
        (fst (AddData ''child'' (Some 2) ''ghost'' parent_child_store)))) = None"
    by code_simp
  from 1 2 3 4 show ?thesis by blast
qed

text \<open>
  Claim C10: when \<open>k\<close> is in the store, \<open>AddData(k, data2)\<close> with the empty base key
  binds \<open>k\<close> to \<open>data2\<close>; a child set that \<open>k\<close> has leaves the table of child sets
  as it was, and the children relation is unchanged in any case. So the keys reachable
  from \<open>k\<close> are those recorded before the call, and a removal of \<open>k\<close> after the call
  removes exactly them.
\<close>

theorem rebind_keeps_child_set:
  assumes "map_of (entries s) k \<noteq> None"
  shows "FindData k (fst (AddData k data2 [] s)) = data2 \<and>
         (\<forall>cs. map_of (children s) k = Some cs \<longrightarrow>
            children (fst (AddData k data2 [] s)) = children s) \<and>
         child_rel (fst (AddData k data2 [] s)) = child_rel s \<and>
         descendants (fst (AddData k data2 [] s)) k = descendants s k \<and>
         entries (fst (RemoveKeyRecursive k (fst (AddData k data2 [] s))))
           = filter (\<lambda>p. fst p \<notin> descendants s k) (entries (fst (AddData k data2 [] s))) \<and>
         (\<forall>x \<in> descendants s k.
            FindData x (fst (RemoveKeyRecursive k (fst (AddData k data2 [] s)))) = None)"
proof -
  let ?s' = "fst (AddData k data2 [] s)"
  have a: "?s' = \<lparr>entries = AList.update k data2 (entries s),
                  children = children_emplace k (children s)\<rparr>"
    by (simp add: AddData_without_base)
  have f: "FindData k ?s' = data2" unfolding a by (simp add: FindData_def update_conv')
  have c: "children ?s' = children s" if "map_of (children s) k = Some cs" for cs
    unfolding a using that by (simp add: children_emplace_def)
  have r: "child_rel ?s' = child_rel s"
    unfolding a by (simp add: child_rel_edges edges_children_emplace)
  have d: "descendants ?s' k = descendants s k" by (simp add: descendants_def r)
  have post: "removal_post (descendants s k) ?s' (fst (RemoveKeyRecursive k ?s'))
                (snd (snd (RemoveKeyRecursive k ?s')))"
    using RemoveKeyRecursive_post[of ?s' k] unfolding d .
  then have e: "entries (fst (RemoveKeyRecursive k ?s'))
                  = filter (\<lambda>p. fst p \<notin> descendants s k) (entries ?s')"
    by (simp add: removal_post_def)
  have g: "FindData x (fst (RemoveKeyRecursive k ?s')) = None" if "x \<in> descendants s k" for x
  proof -
    have "map_of (entries (fst (RemoveKeyRecursive k ?s'))) x = None"
      unfolding e map_of_None_iff using that by auto
    then show ?thesis by (simp add: FindData_def)
  qed
  show ?thesis using f c r d e g by blast
qed

text \<open>
  \<open>parent\<close> bound anew to the payload at address 9: its child set still holds
  \<open>child\<close>, and removing \<open>parent\<close> removes \<open>child\<close>.
\<close>

theorem rebind_keeps_child_set_witness:
  "map_of (entries parent_child_store) ''parent'' \<noteq> None \<and>
   FindData ''parent'' (fst (AddData ''parent'' (Some 9) [] parent_child_store)) = Some 9 \<and>
   map_of (children (fst (AddData ''parent'' (Some 9) [] parent_child_store))) ''parent''
     = Some [''child''] \<and>
   FindData ''child''
     (fst (RemoveKeyRecursive ''parent''
        (fst (AddData ''parent'' (Some 9) [] parent_child_store)))) = None"
proof -
  have h: "map_of (entries parent_child_store) ''parent'' \<noteq> None"
    by (simp add: parent_child_store_eq)
  have cs: "map_of (children parent_child_store) ''parent'' = Some [''child'']"
    by (simp add: parent_child_store_eq)
  have "(''parent'', ''child'') \<in> child_rel parent_child_store"
    by (simp add: child_rel_def parent_child_store_eq)
  then have d: "''child'' \<in> descendants parent_child_store ''parent''"
    by (auto simp: descendants_def)
  note t = rebind_keeps_child_set[OF h, of "Some 9"]
  from t have 1: "FindData ''parent'' (fst (AddData ''parent'' (Some 9) [] parent_child_store)) = Some 9"
    by blast
  from t cs have "children (fst (AddData ''parent'' (Some 9) [] parent_child_store))
                    = children parent_child_store" by blast
  with cs have 2: "map_of (children (fst (AddData ''parent'' (Some 9) [] parent_child_store))) ''parent''
     = Some [''child'']" by simp
  from t d have 3: "FindData ''child''
     (fst (RemoveKeyRecursive ''parent''
        (fst (AddData ''parent'' (Some 9) [] parent_child_store)))) = None" by blast
  from h 1 2 3 show ?thesis by blast
qed

section \<open>The guard of the active identifier\<close>

text \<open>
  Claim C5 after \<open>Init("req")\<close>, which sets the active identifier to \<open>req\<close> and
  registers it: \<open>ThreadDataManager::GetKeyGuard\<close> reports that nothing is initialised and
  hands back a \<open>ThreadData\<close> made on the spot, where the claim has a guard of the store
  for \<open>req\<close>. With no active identifier the call dereferences the null pointer, where the
  claim has the report and the fresh object.
\<close>

theorem guard_of_active_identifier_is_fresh_object:
  "logid_ptr (snd (Init ''req'' 0 ThreadDataManager_new)) = Some ''req'' \<and>
   FindData ''req'' (data_map (snd (Init ''req'' 0 ThreadDataManager_new))) = Some 0 \<and>
   ThreadDataManager_GetKeyGuard (snd (Init ''req'' 0 ThreadDataManager_new))
     = (Fresh (ThreadData_new []), [''ThreadData not initialized'']) \<and>
   spec_release_handle (snd (Init ''req'' 0 ThreadDataManager_new))
     = (Guard (Some \<lparr>guard_ptr = Some 0, guard_key = ''req'', use_count = 1\<rparr>), []) \<and>
   ThreadDataManager_GetKeyGuard ThreadDataManager_new = (Null_Dereference, []) \<and>
   spec_release_handle ThreadDataManager_new
     = (Fresh (ThreadData_new []), [''ThreadData not initialized''])"
  by code_simp

end
